theory Spec2Isabelle
  imports Main "HOL-Library.Word"
begin

section \<open>The diode writer of zap-logger (package \<open>diode\<close>)\<close>

text \<open>
  The development embeds \<^verbatim>\<open>pkg/diode\<close>: the package-level buffer pool, the
  \<^verbatim>\<open>Writer\<close> struct and its four functions \<^verbatim>\<open>NewWriter\<close>, \<^verbatim>\<open>Write\<close>,
  \<^verbatim>\<open>Close\<close> and \<^verbatim>\<open>poll\<close>. The ring diode and the two consumption
  strategies live in \<^verbatim>\<open>pkg/diode/internal\<close>, whose source is not available; they
  are modelled from the specification and marked as such.

  Go values are modelled by value. A goroutine is a sequence of atomic steps; the
  producers' calls and the pump's loop iterations interleave in a schedule.
\<close>

subsection \<open>Byte slices\<close>

type_synonym byte = "8 word"

text \<open>A Go \<^verbatim>\<open>[]byte\<close>: its elements (\<^verbatim>\<open>len\<close> is their number) and its capacity.\<close>

record slice =
  elems :: "byte list"
  cap :: nat

text \<open>
  \<^verbatim>\<open>append(b, p...)\<close>: the elements are appended; the capacity is kept when the result
  fits, otherwise a new array is allocated whose capacity the runtime chooses
  (\<open>grow old needed\<close>), never below the needed length.
\<close>

definition append_slice :: "(nat \<Rightarrow> nat \<Rightarrow> nat) \<Rightarrow> slice \<Rightarrow> byte list \<Rightarrow> slice" where
  "append_slice grow b p =
     (let n = length (elems b) + length p in
      \<lparr>elems = elems b @ p,
       cap = (if n \<le> cap b then cap b else max n (grow (cap b) n))\<rparr>)"

text \<open>\<^verbatim>\<open>p[:0]\<close>: the same array, no elements.\<close>

definition reslice0 :: "slice \<Rightarrow> slice" where
  "reslice0 p = p\<lparr>elems := []\<rparr>"

subsection \<open>The buffer pool\<close>

text \<open>
  \<^verbatim>\<open>var bufPool = &sync.Pool{New: func() interface{} { return make([]byte, 0, 500) }}\<close>.
  The pool is a list of slices; \<^verbatim>\<open>Get\<close> takes the first one, or makes a new one when
  the pool is empty.
\<close>

definition bufPool_New :: slice where
  "bufPool_New = \<lparr>elems = [], cap = 500\<rparr>"

definition bufPool_Get :: "slice list \<Rightarrow> slice \<times> slice list" where
  "bufPool_Get pool = (case pool of [] \<Rightarrow> (bufPool_New, []) | b # bs \<Rightarrow> (b, bs))"

definition bufPool_Put :: "slice \<Rightarrow> slice list \<Rightarrow> slice list" where
  "bufPool_Put b pool = b # pool"

text \<open>\<^verbatim>\<open>const maxSize = 1 << 16\<close> in \<^verbatim>\<open>poll\<close>.\<close>

definition maxSize :: nat where
  "maxSize = 2 ^ 16"

subsection \<open>Errors, panics and the wrapped sink\<close>

text \<open>A Go \<^verbatim>\<open>error\<close> value is an optional message; \<^verbatim>\<open>nil\<close> is \<open>None\<close>.\<close>

type_synonym error = string

datatype panic = ConfigurationError | NilFuncCall

text \<open>
  The wrapped \<^verbatim>\<open>io.Writer\<close>. Its state is the list of calls it has received, oldest
  first; what a call returns is a function of that history, so that any deterministic
  sink is an instance. \<open>Closer\<close> is present when the sink implements \<^verbatim>\<open>io.Closer\<close>.
\<close>

datatype sink_call = SinkWrite "byte list" | SinkClose

record io_Writer =
  calls :: "sink_call list"
  Write_result :: "sink_call list \<Rightarrow> byte list \<Rightarrow> int \<times> error option"
  Closer :: "(sink_call list \<Rightarrow> error option) option"

definition sink_Write :: "byte list \<Rightarrow> io_Writer \<Rightarrow> (int \<times> error option) \<times> io_Writer" where
  "sink_Write p s = (Write_result s (calls s) p, s\<lparr>calls := calls s @ [SinkWrite p]\<rparr>)"

definition sink_Close :: "(sink_call list \<Rightarrow> error option) \<Rightarrow> io_Writer \<Rightarrow> error option \<times> io_Writer" where
  "sink_Close cl s = (cl (calls s), s\<lparr>calls := calls s @ [SinkClose]\<rparr>)"

subsection \<open>The ring diode and the strategies\<close>

text \<open>
  \<^verbatim>\<open>type Alerter func(missed int)\<close>: a callback acting on some state \<open>'u\<close> of its
  owner. A Go func value may be \<^verbatim>\<open>nil\<close>; calling it then panics.
\<close>

type_synonym 'u Alerter = "int \<Rightarrow> 'u \<Rightarrow> 'u"

text \<open>
  Modelled from the spec: the ring diode of \<^verbatim>\<open>pkg/diode/internal\<close> (the type behind
  \<^verbatim>\<open>internal.NewManyToOne\<close>), which is missing. Section 3 of the specification: a
  fixed array of slots, each holding a payload with the sequence number under which it
  was written; a write cursor; a read cursor owned by the consumer; a drop-alert
  callback.
\<close>

record 'u ManyToOne =
  slots :: "(slice \<times> nat) option list"
  write_cursor :: nat
  read_cursor :: nat
  alerter :: "'u Alerter option"

text \<open>
  Modelled from the spec: \<^verbatim>\<open>internal.NewManyToOne(size, alerter)\<close>, which is missing.
  Section 4.4 and section 7: construction fails on a capacity \<open>\<le> 0\<close> with a
  configuration error; section 3: the capacity is fixed at construction.
\<close>

definition NewManyToOne :: "int \<Rightarrow> 'u Alerter option \<Rightarrow> panic + 'u ManyToOne" where
  "NewManyToOne sz f =
     (if sz \<le> 0 then Inl ConfigurationError
      else Inr \<lparr>slots = replicate (nat sz) None, write_cursor = 0, read_cursor = 0,
                alerter = f\<rparr>)"

text \<open>
  Modelled from the spec: \<^verbatim>\<open>Set\<close> of the missing diode, the specification's
  \<open>publish(item)\<close> (section 4.1): take the write cursor as the sequence \<open>s\<close>,
  increment the cursor, store \<open>(item, s)\<close> into slot \<open>s mod capacity\<close>.
\<close>

definition publish :: "slice \<Rightarrow> 'u ManyToOne \<Rightarrow> 'u ManyToOne" where
  "publish item d =
     (let s = write_cursor d; idx = s mod length (slots d) in
      d\<lparr>slots := (slots d)[idx := Some (item, s)], write_cursor := s + 1\<rparr>)"

text \<open>
  Modelled from the spec: \<open>next(expected_seq)\<close> of the missing diode (section 4.1),
  with its three outcomes: the slot holds the expected sequence (return the item, advance
  the read cursor by one); it holds a later sequence \<open>s'\<close> (alert with
  \<open>s' - expected\<close>, resume reading from \<open>s'\<close>); otherwise not ready. The alert
  callback is a Go func value: calling a nil one panics.
\<close>

definition slot_at :: "'u ManyToOne \<Rightarrow> nat \<Rightarrow> (slice \<times> nat) option" where
  "slot_at d i = (if i < length (slots d) then slots d ! i else None)"

definition next_item :: "'u ManyToOne \<Rightarrow> 'u \<Rightarrow> panic + (slice option \<times> 'u ManyToOne \<times> 'u)" where
  "next_item d u =
     (let e = read_cursor d in
      case slot_at d (e mod length (slots d)) of
        None \<Rightarrow> Inr (None, d, u)
      | Some (item, s) \<Rightarrow>
          if s = e then Inr (Some item, d\<lparr>read_cursor := e + 1\<rparr>, u)
          else if e < s then
            (case alerter d of
               None \<Rightarrow> Inl NilFuncCall
             | Some f \<Rightarrow> Inr (Some item, d\<lparr>read_cursor := s + 1\<rparr>, f (int (s - e)) u))
          else Inr (None, d, u))"

text \<open>
  The two strategies, \<^verbatim>\<open>internal.NewPoller\<close> with its interval and
  \<^verbatim>\<open>internal.NewWaiter\<close>; \<^verbatim>\<open>diodeFetcher\<close> is the interface both satisfy.
\<close>

datatype strategy = Poller int | Waiter

record 'u diodeFetcher =
  strategy :: strategy
  diode :: "'u ManyToOne"

definition NewPoller :: "'u ManyToOne \<Rightarrow> int \<Rightarrow> 'u diodeFetcher" where
  "NewPoller d interval = \<lparr>strategy = Poller interval, diode = d\<rparr>"

definition NewWaiter :: "'u ManyToOne \<Rightarrow> 'u diodeFetcher" where
  "NewWaiter d = \<lparr>strategy = Waiter, diode = d\<rparr>"

definition Set_item :: "slice \<Rightarrow> 'u diodeFetcher \<Rightarrow> 'u diodeFetcher" where
  "Set_item item df = df\<lparr>diode := publish item (diode df)\<rparr>"

text \<open>
  Modelled from the spec: \<^verbatim>\<open>Next\<close> of the missing strategies (sections 4.1 to
  4.3). Both call \<open>next\<close> until it yields an item or cancellation is observed; they
  differ in how they wait (a timer tick or a signal), which is not modelled: a call that
  is still waiting is \<open>Parked\<close>. Whether records still buffered at cancellation are
  drained is left open by the specification (section 9), so it is the parameter
  \<open>drain\<close>: with it, \<open>Next\<close> turns terminal once the diode is empty; without it,
  as soon as cancellation is observed.
\<close>

datatype fetched = Item slice | Terminal | Parked

definition Next :: "bool \<Rightarrow> bool \<Rightarrow> 'u diodeFetcher \<Rightarrow> 'u \<Rightarrow> panic + (fetched \<times> 'u diodeFetcher \<times> 'u)" where
  "Next drain cancelled df u =
     (if cancelled \<and> \<not> drain then Inr (Terminal, df, u)
      else case next_item (diode df) u of
             Inl e \<Rightarrow> Inl e
           | Inr (Some item, d', u') \<Rightarrow> Inr (Item item, df\<lparr>diode := d'\<rparr>, u')
           | Inr (None, d', u') \<Rightarrow>
               Inr (if cancelled then Terminal else Parked, df\<lparr>diode := d'\<rparr>, u'))"

subsection \<open>The program state\<close>

text \<open>
  What exists outside a \<^verbatim>\<open>Writer\<close>: the package-level pool, the state the drop
  alerts act on, the number of pump goroutines started, the runtime's growth policy for
  \<^verbatim>\<open>append\<close> and the strategies' drain policy.
\<close>

record 'u env =
  bufPool :: "slice list"
  user :: 'u
  goroutines :: nat
  growslice :: "nat \<Rightarrow> nat \<Rightarrow> nat"
  drain_on_cancel :: bool

text \<open>
  \<^verbatim>\<open>type Writer struct { w io.Writer; d diodeFetcher; c context.CancelFunc; done chan struct{} }\<close>.
  The fields are references; the record holds what they refer to: the sink, the strategy
  with its diode, whether the context of \<^verbatim>\<open>c\<close> is cancelled, whether \<^verbatim>\<open>done\<close> is
  closed. It extends the program state, so that one value is the whole world of a
  \<^verbatim>\<open>Writer\<close>.
\<close>

record 'u Writer = "'u env" +
  dw_w :: io_Writer
  dw_d :: "'u diodeFetcher"
  dw_c :: bool
  dw_done :: bool

subsection \<open>NewWriter\<close>

text \<open>
  \<^verbatim>\<open>NewWriter(w, size, pollInterval, f)\<close>: the context and the struct are made first
  (not cancelled, \<^verbatim>\<open>done\<close> open); a nil \<^verbatim>\<open>f\<close> is replaced by
  \<^verbatim>\<open>func(int) {}\<close>; the diode is built; the strategy is chosen by the sign of
  \<^verbatim>\<open>pollInterval\<close>; only then \<^verbatim>\<open>go dw.poll()\<close> starts the pump. A panic of the
  diode's constructor leaves the function before that statement: the result carries the
  program state at the panic.
\<close>

definition NewWriter ::
  "io_Writer \<Rightarrow> int \<Rightarrow> int \<Rightarrow> 'u Alerter option \<Rightarrow> 'u env \<Rightarrow> (panic \<times> 'u env) + 'u Writer" where
  "NewWriter w sz pollInterval f pr =
     (let f' = (case f of None \<Rightarrow> (\<lambda>missed u. u) | Some g \<Rightarrow> g) in
      case NewManyToOne sz (Some f') of
        Inl e \<Rightarrow> Inl (e, pr)
      | Inr d \<Rightarrow>
          Inr \<lparr>bufPool = bufPool pr, user = user pr, goroutines = goroutines pr + 1,
               growslice = growslice pr, drain_on_cancel = drain_on_cancel pr,
               dw_w = w,
               dw_d = (if pollInterval > 0 then NewPoller d pollInterval else NewWaiter d),
               dw_c = False, dw_done = False\<rparr>)"

subsection \<open>Write\<close>

text \<open>
  \<^verbatim>\<open>p = append(bufPool.Get().([]byte), p...); dw.d.Set(&p); return len(p), nil\<close>.
  The length returned is that of the slice after the append.
\<close>

definition Write :: "byte list \<Rightarrow> 'u Writer \<Rightarrow> (int \<times> error option) \<times> 'u Writer" where
  "Write p wd =
     (let (b, pool') = bufPool_Get (bufPool wd);
          p' = append_slice (growslice wd) b p
      in ((int (length (elems p')), None),
          wd\<lparr>bufPool := pool', dw_d := Set_item p' (dw_d wd)\<rparr>))"

subsection \<open>The pump\<close>

text \<open>
  One iteration of the loop of \<^verbatim>\<open>poll\<close>. \<^verbatim>\<open>Next\<close> returns nil: the function
  returns and the deferred \<^verbatim>\<open>close(dw.done)\<close> runs. \<^verbatim>\<open>Next\<close> returns a record:
  it is written to the sink, both results of the write are dropped
  (\<^verbatim>\<open>_, _ = dw.w.Write(p)\<close>), and \<^verbatim>\<open>p[:0]\<close> goes back to the pool when
  \<^verbatim>\<open>cap(p) <= maxSize\<close>. \<^verbatim>\<open>Next\<close> has not returned yet: the pump waits.
\<close>

datatype 'w pumped = Running 'w | Exited 'w | Waiting

definition poll_iter :: "'u Writer \<Rightarrow> panic + 'u Writer pumped" where
  "poll_iter wd =
     (case Next (drain_on_cancel wd) (dw_c wd) (dw_d wd) (user wd) of
        Inl e \<Rightarrow> Inl e
      | Inr (Terminal, df, u) \<Rightarrow> Inr (Exited (wd\<lparr>user := u, dw_d := df, dw_done := True\<rparr>))
      | Inr (Parked, df, u) \<Rightarrow> Inr Waiting
      | Inr (Item p, df, u) \<Rightarrow>
          (let (_, w') = sink_Write (elems p) (dw_w wd);
               pool' = (if cap p \<le> maxSize then bufPool_Put (reslice0 p) (bufPool wd)
                        else bufPool wd)
           in Inr (Running (wd\<lparr>bufPool := pool', user := u, dw_w := w', dw_d := df\<rparr>))))"

text \<open>
  The number of slots whose sequence the read cursor has not passed: every record the
  pump takes lowers it, which bounds the loop.
\<close>

definition unread :: "'u ManyToOne \<Rightarrow> nat" where
  "unread d =
     length (filter (\<lambda>sl. case sl of None \<Rightarrow> False | Some (_, s) \<Rightarrow> read_cursor d \<le> s)
       (slots d))"

lemma filter_shrinks:
  assumes "x \<in> set xs" "P x" "\<not> Q x" "\<And>y. Q y \<Longrightarrow> P y"
  shows "length (filter Q xs) < length (filter P xs)"
proof -
  have "filter Q xs = filter Q (filter P xs)"
    using assms(4) by (induction xs) auto
  moreover have "x \<in> set (filter P xs)"
    using assms(1,2) by simp
  ultimately show ?thesis
    using assms(3) by (metis length_filter_less)
qed

lemma next_item_unread:
  assumes "next_item d u = Inr (Some item, d', u')"
  shows "unread d' < unread d"
proof -
  let ?i = "read_cursor d mod length (slots d)"
  obtain s where sl: "slot_at d ?i = Some (item, s)" and ge: "read_cursor d \<le> s"
    and d': "d' = d\<lparr>read_cursor := s + 1\<rparr>"
    using assms
    by (auto simp: next_item_def Let_def split: option.splits if_splits prod.splits)
  from sl have mem: "Some (item, s) \<in> set (slots d)"
    by (metis nth_mem option.distinct(1) slot_at_def)
  show ?thesis
    unfolding unread_def d'
    by (simp, rule filter_shrinks [OF mem]) (use ge in \<open>auto split: option.splits\<close>)
qed

lemma poll_iter_unread:
  assumes "poll_iter wd = Inr (Running wd')"
  shows "unread (diode (dw_d wd')) < unread (diode (dw_d wd))"
proof -
  from assms obtain p d' u' where
    n: "next_item (diode (dw_d wd)) (user wd) = Inr (Some p, d', u')"
    and d: "diode (dw_d wd') = d'"
    by (auto simp: poll_iter_def Next_def Let_def
             split: sum.splits prod.splits fetched.splits if_splits option.splits)
  from next_item_unread [OF n] d show ?thesis by simp
qed

text \<open>
  A call that may not return: it returns a value, blocks for ever, or panics.
\<close>

datatype 'a outcome = Done 'a | Blocks | Panics panic

text \<open>
  \<^verbatim>\<open>poll\<close> from its current iteration to its return, when no other goroutine acts
  in between. A pump that waits then waits for ever.
\<close>

function poll :: "'u Writer \<Rightarrow> 'u Writer outcome" where
  "poll wd =
     (case poll_iter wd of
        Inl e \<Rightarrow> Panics e
      | Inr Waiting \<Rightarrow> Blocks
      | Inr (Exited wd') \<Rightarrow> Done wd'
      | Inr (Running wd') \<Rightarrow> poll wd')"
  by pat_completeness auto
termination
  by (relation "measure (\<lambda>wd. unread (diode (dw_d wd)))") (auto dest: poll_iter_unread)

declare poll.simps [simp del]

subsection \<open>Close\<close>

text \<open>
  \<^verbatim>\<open>dw.c(); <-dw.done; if w, ok := dw.w.(io.Closer); ok { return w.Close() }; return nil\<close>.
  The receive returns at once when \<^verbatim>\<open>done\<close> is closed already; otherwise only the
  pump can close it, so the call waits for the pump to return.
\<close>

definition await_done :: "'u Writer \<Rightarrow> 'u Writer outcome" where
  "await_done wd = (if dw_done wd then Done wd else poll wd)"

definition Close :: "'u Writer \<Rightarrow> (error option \<times> 'u Writer) outcome" where
  "Close wd =
     (case await_done (wd\<lparr>dw_c := True\<rparr>) of
        Panics e \<Rightarrow> Panics e
      | Blocks \<Rightarrow> Blocks
      | Done wd' \<Rightarrow>
          (case Closer (dw_w wd') of
             Some cl \<Rightarrow> (let (r, w') = sink_Close cl (dw_w wd') in Done (r, wd'\<lparr>dw_w := w'\<rparr>))
           | None \<Rightarrow> Done (None, wd')))"

subsection \<open>Schedules\<close>

text \<open>
  What can happen to a \<^verbatim>\<open>Writer\<close> after its construction: a producer calls
  \<^verbatim>\<open>Write\<close>; the pump runs one iteration of its loop (nothing when it has returned);
  somebody calls \<^verbatim>\<open>Close\<close>; the pool loses a slice (the garbage collector, or a
  \<^verbatim>\<open>Get\<close> of another \<^verbatim>\<open>Writer\<close>); another \<^verbatim>\<open>Writer\<close>'s pump puts a slice
  back (emptied, and only within \<^verbatim>\<open>maxSize\<close>, as \<^verbatim>\<open>poll\<close> does).
\<close>

datatype event = Produce "byte list" | Pump | CloseCall | PoolEvict nat | PoolPutOther nat

fun step :: "event \<Rightarrow> 'u Writer \<Rightarrow> 'u Writer outcome" where
  "step (Produce p) wd = Done (snd (Write p wd))"
| "step Pump wd =
     (if dw_done wd then Done wd
      else case poll_iter wd of
             Inl e \<Rightarrow> Panics e
           | Inr Waiting \<Rightarrow> Done wd
           | Inr (Exited wd') \<Rightarrow> Done wd'
           | Inr (Running wd') \<Rightarrow> Done wd')"
| "step CloseCall wd =
     (case Close wd of Panics e \<Rightarrow> Panics e | Blocks \<Rightarrow> Blocks | Done (r, wd') \<Rightarrow> Done wd')"
| "step (PoolEvict n) wd =
     Done (wd\<lparr>bufPool := take n (bufPool wd) @ drop (Suc n) (bufPool wd)\<rparr>)"
| "step (PoolPutOther c) wd =
     Done (if c \<le> maxSize then wd\<lparr>bufPool := bufPool_Put \<lparr>elems = [], cap = c\<rparr> (bufPool wd)\<rparr>
           else wd)"

fun run :: "event list \<Rightarrow> 'u Writer \<Rightarrow> 'u Writer outcome" where
  "run [] wd = Done wd"
| "run (e # es) wd =
     (case step e wd of Panics x \<Rightarrow> Panics x | Blocks \<Rightarrow> Blocks | Done wd' \<Rightarrow> run es wd')"

subsection \<open>Example values\<close>

text \<open>
  A sink whose every write fails, a program state with an empty pool, and a drop alert
  that records the counts it is given: the concrete inputs the theorems are run on.
\<close>

definition ex_sink :: io_Writer where
  "ex_sink = \<lparr>calls = [], Write_result = (\<lambda>h p. (0, Some ''disk full'')), Closer = None\<rparr>"

definition ex_env :: "int list env" where
  "ex_env = \<lparr>bufPool = [], user = [], goroutines = 0, growslice = (\<lambda>old n. 2 * n),
             drain_on_cancel = True\<rparr>"

definition ex_alert :: "int list Alerter" where
  "ex_alert missed u = u @ [missed]"

text \<open>
  A state in which the diode holds one unread record, in a buffer of capacity \<open>c\<close>.
\<close>

definition ex_world :: "nat \<Rightarrow> int list Writer" where
  "ex_world c = \<lparr>bufPool = [], user = [], goroutines = 1, growslice = (\<lambda>old n. 2 * n),
      drain_on_cancel = True, dw_w = ex_sink,
      dw_d = \<lparr>strategy = Waiter,
              diode = \<lparr>slots = [Some (\<lparr>elems = [1, 2], cap = c\<rparr>, 0), None], write_cursor = 1,
                       read_cursor = 0, alerter = Some ex_alert\<rparr>\<rparr>,
      dw_c = False, dw_done = False\<rparr>"

text \<open>The equations that evaluate the model on concrete inputs.\<close>

lemmas ex_defs = ex_sink_def ex_env_def ex_alert_def
lemmas model_defs = NewWriter_def NewManyToOne_def NewPoller_def NewWaiter_def Write_def
  poll_iter_def Next_def next_item_def slot_at_def publish_def Set_item_def bufPool_Get_def
  bufPool_Put_def bufPool_New_def append_slice_def reslice0_def sink_Write_def sink_Close_def
  Close_def await_done_def maxSize_def Let_def

section \<open>Invariants\<close>

text \<open>
  Every slice in the pool is empty: \<^verbatim>\<open>New\<close> makes an empty one and \<^verbatim>\<open>poll\<close>
  puts back \<^verbatim>\<open>p[:0]\<close>. The diode's alert callback is never nil: \<^verbatim>\<open>NewWriter\<close>
  replaces a nil one.
\<close>

definition pool_ok :: "slice list \<Rightarrow> bool" where
  "pool_ok pool = list_all (\<lambda>b. elems b = []) pool"

definition armed :: "'u Writer \<Rightarrow> bool" where
  "armed wd = (alerter (diode (dw_d wd)) \<noteq> None)"

text \<open>
  What a later state \<open>b\<close> of a \<^verbatim>\<open>Writer\<close> keeps of an earlier state \<open>a\<close>: the
  callback, the strategy, the capacity and the sink's behaviour; cancellation and the
  pump's exit, once they happened; the pool's invariant; the callback's state when the
  callback does nothing; the sink's history, which only grows, and after the pump's exit
  only by calls of \<^verbatim>\<open>Close\<close>.
\<close>

definition follows :: "'u Writer \<Rightarrow> 'u Writer \<Rightarrow> bool" where
  "follows a b =
     (alerter (diode (dw_d b)) = alerter (diode (dw_d a)) \<and>
      strategy (dw_d b) = strategy (dw_d a) \<and>
      length (slots (diode (dw_d b))) = length (slots (diode (dw_d a))) \<and>
      Closer (dw_w b) = Closer (dw_w a) \<and>
      Write_result (dw_w b) = Write_result (dw_w a) \<and>
      (dw_c a \<longrightarrow> dw_c b) \<and> (dw_done a \<longrightarrow> dw_done b) \<and>
      (pool_ok (bufPool a) \<longrightarrow> pool_ok (bufPool b)) \<and>
      (alerter (diode (dw_d a)) = Some (\<lambda>missed u. u) \<longrightarrow> user b = user a) \<and>
      (\<exists>cs. calls (dw_w b) = calls (dw_w a) @ cs \<and> (dw_done a \<longrightarrow> set cs \<subseteq> {SinkClose})))"

lemma follows_refl: "follows a a"
  by (simp add: follows_def)

lemma follows_trans:
  assumes "follows a b" "follows b c"
  shows "follows a c"
proof -
  from assms obtain cs ds where
    cs: "calls (dw_w b) = calls (dw_w a) @ cs" "dw_done a \<longrightarrow> set cs \<subseteq> {SinkClose}"
    and ds: "calls (dw_w c) = calls (dw_w b) @ ds" "dw_done b \<longrightarrow> set ds \<subseteq> {SinkClose}"
    unfolding follows_def by blast
  have "calls (dw_w c) = calls (dw_w a) @ (cs @ ds)"
    using cs(1) ds(1) by simp
  moreover have "dw_done a \<longrightarrow> set (cs @ ds) \<subseteq> {SinkClose}"
    using cs(2) ds(2) assms(1) by (auto simp: follows_def)
  ultimately have "\<exists>es. calls (dw_w c) = calls (dw_w a) @ es \<and> (dw_done a \<longrightarrow> set es \<subseteq> {SinkClose})"
    by blast
  then show ?thesis
    using assms unfolding follows_def by simp
qed

lemma follows_armed: "follows a b \<Longrightarrow> armed a \<Longrightarrow> armed b"
  by (simp add: follows_def armed_def)

subsection \<open>Write\<close>

lemma pool_ok_Get:
  assumes "pool_ok pool" "bufPool_Get pool = (b, pool')"
  shows "elems b = [] \<and> pool_ok pool'"
  using assms by (auto simp: pool_ok_def bufPool_Get_def bufPool_New_def split: list.splits)

lemma pool_ok_Get_snd: "pool_ok pool \<Longrightarrow> pool_ok (snd (bufPool_Get pool))"
  using pool_ok_Get [of pool] by (cases "bufPool_Get pool") simp

lemma Write_len:
  assumes "pool_ok (bufPool wd)"
  shows "fst (Write p wd) = (int (length p), None)"
proof -
  obtain b pool' where g: "bufPool_Get (bufPool wd) = (b, pool')"
    by (cases "bufPool_Get (bufPool wd)")
  with pool_ok_Get [OF assms g] show ?thesis
    by (simp add: Write_def append_slice_def Let_def)
qed

lemma Write_follows: "follows wd (snd (Write p wd))"
  by (simp add: follows_def Write_def Set_item_def publish_def Let_def pool_ok_Get_snd
           split: prod.splits)
    (metis pool_ok_Get_snd snd_conv)

subsection \<open>The pump\<close>

lemma next_item_keeps:
  assumes "next_item d u = Inr (r, d', u')"
  shows "alerter d' = alerter d \<and> slots d' = slots d \<and> write_cursor d' = write_cursor d
     \<and> (alerter d = Some (\<lambda>missed u. u) \<longrightarrow> u' = u)"
  using assms
  by (auto simp: next_item_def Let_def split: option.splits prod.splits if_splits)

lemma next_item_total:
  "alerter d \<noteq> None \<Longrightarrow> \<exists>r d' u'. next_item d u = Inr (r, d', u')"
  by (auto simp: next_item_def Let_def split: option.splits prod.splits if_splits)

lemma Next_keeps:
  assumes "Next drain c df u = Inr (r, df', u')"
  shows "alerter (diode df') = alerter (diode df) \<and> strategy df' = strategy df
     \<and> slots (diode df') = slots (diode df)
     \<and> (alerter (diode df) = Some (\<lambda>missed u. u) \<longrightarrow> u' = u)
     \<and> (r = Terminal \<longrightarrow> c) \<and> (r = Parked \<longrightarrow> \<not> c)"
proof (cases "c \<and> \<not> drain")
  case True
  then show ?thesis using assms by (auto simp: Next_def)
next
  case False
  then obtain x d' where n: "next_item (diode df) u = Inr (x, d', u')" and d: "df' = df\<lparr>diode := d'\<rparr>"
    and r: "r = (case x of Some item \<Rightarrow> Item item | None \<Rightarrow> if c then Terminal else Parked)"
    using assms by (auto simp: Next_def split: sum.splits prod.splits option.splits)
  from next_item_keeps [OF n] d r show ?thesis
    by (auto split: option.splits)
qed

lemma Next_total:
  assumes "alerter (diode df) \<noteq> None"
  shows "\<exists>r df' u'. Next drain c df u = Inr (r, df', u')"
proof -
  from next_item_total [OF assms] obtain r d' u' where "next_item (diode df) u = Inr (r, d', u')"
    by blast
  then show ?thesis
    by (cases r) (auto simp: Next_def)
qed

lemma poll_iter_Item:
  assumes "Next (drain_on_cancel wd) (dw_c wd) (dw_d wd) (user wd) = Inr (Item p, df, u)"
  shows "poll_iter wd = Inr (Running
     (wd\<lparr>bufPool := (if cap p \<le> maxSize then reslice0 p # bufPool wd else bufPool wd),
         user := u,
         dw_w := (dw_w wd)\<lparr>calls := calls (dw_w wd) @ [SinkWrite (elems p)]\<rparr>,
         dw_d := df\<rparr>))"
  using assms by (simp add: poll_iter_def Let_def sink_Write_def bufPool_Put_def)

lemma poll_iter_Running:
  assumes "poll_iter wd = Inr (Running wd')"
  shows "\<exists>p df u. Next (drain_on_cancel wd) (dw_c wd) (dw_d wd) (user wd) = Inr (Item p, df, u)
     \<and> wd' = wd\<lparr>bufPool := (if cap p \<le> maxSize then reslice0 p # bufPool wd else bufPool wd),
                 user := u,
                 dw_w := (dw_w wd)\<lparr>calls := calls (dw_w wd) @ [SinkWrite (elems p)]\<rparr>,
                 dw_d := df\<rparr>"
  using assms
  by (auto simp: poll_iter_def Let_def sink_Write_def bufPool_Put_def
           split: sum.splits prod.splits fetched.splits)

lemma poll_iter_Exited:
  assumes "poll_iter wd = Inr (Exited wd')"
  shows "\<exists>df u. Next (drain_on_cancel wd) (dw_c wd) (dw_d wd) (user wd) = Inr (Terminal, df, u)
     \<and> wd' = wd\<lparr>user := u, dw_d := df, dw_done := True\<rparr>"
  using assms
  by (auto simp: poll_iter_def Let_def sink_Write_def bufPool_Put_def
           split: sum.splits prod.splits fetched.splits)

lemma poll_iter_Waiting:
  assumes "poll_iter wd = Inr Waiting"
  shows "\<not> dw_c wd"
proof -
  from assms obtain df u where
    "Next (drain_on_cancel wd) (dw_c wd) (dw_d wd) (user wd) = Inr (Parked, df, u)"
    by (auto simp: poll_iter_def Let_def split: sum.splits prod.splits fetched.splits)
  from Next_keeps [OF this] show ?thesis by simp
qed

lemma poll_iter_total:
  assumes "armed wd"
  shows "\<exists>x. poll_iter wd = Inr x"
proof -
  from Next_total [of "dw_d wd" "drain_on_cancel wd" "dw_c wd" "user wd"] assms
  obtain r df u where "Next (drain_on_cancel wd) (dw_c wd) (dw_d wd) (user wd) = Inr (r, df, u)"
    by (auto simp: armed_def)
  then show ?thesis
    by (cases r) (simp_all add: poll_iter_def Let_def split: prod.splits)
qed

lemma poll_iter_Running_follows:
  assumes "poll_iter wd = Inr (Running wd')" "\<not> dw_done wd"
  shows "follows wd wd' \<and> \<not> dw_done wd' \<and> dw_c wd' = dw_c wd
     \<and> (\<exists>p. calls (dw_w wd') = calls (dw_w wd) @ [SinkWrite p])"
proof -
  from poll_iter_Running [OF assms(1)] obtain p df u where
    n: "Next (drain_on_cancel wd) (dw_c wd) (dw_d wd) (user wd) = Inr (Item p, df, u)"
    and w: "wd' = wd\<lparr>bufPool := (if cap p \<le> maxSize then reslice0 p # bufPool wd else bufPool wd),
                 user := u,
                 dw_w := (dw_w wd)\<lparr>calls := calls (dw_w wd) @ [SinkWrite (elems p)]\<rparr>,
                 dw_d := df\<rparr>"
    by blast
  from Next_keeps [OF n] w assms(2) show ?thesis
    by (simp add: follows_def pool_ok_def reslice0_def)
qed

lemma poll_iter_Exited_follows:
  assumes "poll_iter wd = Inr (Exited wd')"
  shows "follows wd wd' \<and> dw_done wd' \<and> dw_c wd \<and> dw_c wd' \<and> dw_w wd' = dw_w wd"
proof -
  from poll_iter_Exited [OF assms(1)] obtain df u where
    n: "Next (drain_on_cancel wd) (dw_c wd) (dw_d wd) (user wd) = Inr (Terminal, df, u)"
    and w: "wd' = wd\<lparr>user := u, dw_d := df, dw_done := True\<rparr>"
    by blast
  from Next_keeps [OF n] w show ?thesis
    by (simp add: follows_def)
qed

text \<open>Once cancellation is signalled, the pump returns: it neither waits nor panics.\<close>

lemma poll_cancelled:
  assumes "armed wd" "dw_c wd" "\<not> dw_done wd"
  shows "\<exists>wd' ds. poll wd = Done wd' \<and> follows wd wd' \<and> dw_done wd'
           \<and> calls (dw_w wd') = calls (dw_w wd) @ map SinkWrite ds"
  using assms
proof (induction wd rule: poll.induct)
  case (1 wd)
  from poll_iter_total [OF "1.prems"(1)] obtain x where x: "poll_iter wd = Inr x" by blast
  show ?case
  proof (cases x)
    case (Running wd1)
    with x have it: "poll_iter wd = Inr (Running wd1)" by simp
    from poll_iter_Running_follows [OF it "1.prems"(3)] obtain p where
      f: "follows wd wd1" "\<not> dw_done wd1" "dw_c wd1 = dw_c wd"
        "calls (dw_w wd1) = calls (dw_w wd) @ [SinkWrite p]"
      by blast
    have "armed wd1" using follows_armed [OF f(1) "1.prems"(1)] .
    from "1.IH" [OF it refl this] f(2,3) "1.prems"(2) obtain wd' ds where
      ih: "poll wd1 = Done wd'" "follows wd1 wd'" "dw_done wd'"
        "calls (dw_w wd') = calls (dw_w wd1) @ map SinkWrite ds"
      by auto
    have "poll wd = Done wd'"
      using it ih(1) by (subst poll.simps) simp
    moreover have "calls (dw_w wd') = calls (dw_w wd) @ map SinkWrite (p # ds)"
      using ih(4) f(4) by simp
    ultimately show ?thesis
      using follows_trans [OF f(1) ih(2)] ih(3) by blast
  next
    case (Exited wd1)
    with x have it: "poll_iter wd = Inr (Exited wd1)" by simp
    have "poll wd = Done wd1"
      using it by (subst poll.simps) simp
    with poll_iter_Exited_follows [OF it] show ?thesis
      by (intro exI [of _ wd1] exI [of _ "[]"]) simp
  next
    case Waiting
    with x poll_iter_Waiting [of wd] "1.prems"(2) show ?thesis by simp
  qed
qed

subsection \<open>Close\<close>

text \<open>
  \<^verbatim>\<open>Close\<close> always returns. \<open>wd1\<close> is the state in which the receive from
  \<^verbatim>\<open>done\<close> returns: the pump has returned, and what it wrote in between
  (\<open>ds\<close>) is in the sink's history.
\<close>

lemma Close_returns:
  assumes "armed wd"
  shows "\<exists>wd1 ds. await_done (wd\<lparr>dw_c := True\<rparr>) = Done wd1 \<and> follows wd wd1
           \<and> dw_c wd1 \<and> dw_done wd1
           \<and> calls (dw_w wd1) = calls (dw_w wd) @ map SinkWrite ds
           \<and> (dw_done wd \<longrightarrow> wd1 = wd\<lparr>dw_c := True\<rparr>)
           \<and> Close wd = Done (case Closer (dw_w wd) of
                 None \<Rightarrow> (None, wd1)
               | Some cl \<Rightarrow> (cl (calls (dw_w wd1)),
                   wd1\<lparr>dw_w := (dw_w wd1)\<lparr>calls := calls (dw_w wd1) @ [SinkClose]\<rparr>\<rparr>))"
proof -
  let ?c = "wd\<lparr>dw_c := True\<rparr>"
  have c: "follows wd ?c" "armed ?c" "dw_c ?c"
    using assms by (simp_all add: follows_def armed_def)
  have "\<exists>wd1 ds. await_done ?c = Done wd1 \<and> follows ?c wd1 \<and> dw_done wd1
          \<and> calls (dw_w wd1) = calls (dw_w ?c) @ map SinkWrite ds \<and> (dw_done wd \<longrightarrow> wd1 = ?c)"
  proof (cases "dw_done wd")
    case True
    then show ?thesis
      by (intro exI [of _ ?c] exI [of _ "[]"]) (simp add: await_done_def follows_refl)
  next
    case False
    then show ?thesis
      using poll_cancelled [OF c(2,3)] by (simp add: await_done_def)
  qed
  then obtain wd1 ds where
    a: "await_done ?c = Done wd1" "follows ?c wd1" "dw_done wd1"
      "calls (dw_w wd1) = calls (dw_w wd) @ map SinkWrite ds" "dw_done wd \<longrightarrow> wd1 = ?c"
    by auto
  have f: "follows wd wd1" using follows_trans [OF c(1) a(2)] .
  then have cl: "Closer (dw_w wd1) = Closer (dw_w wd)" and dc: "dw_c wd1"
    using a(2) by (simp_all add: follows_def)
  have "Close wd = Done (case Closer (dw_w wd) of
                 None \<Rightarrow> (None, wd1)
               | Some cl \<Rightarrow> (cl (calls (dw_w wd1)),
                   wd1\<lparr>dw_w := (dw_w wd1)\<lparr>calls := calls (dw_w wd1) @ [SinkClose]\<rparr>\<rparr>))"
    using a(1) cl by (simp add: Close_def sink_Close_def split: option.splits)
  with a f dc show ?thesis by blast
qed

lemma Close_follows:
  assumes "armed wd"
  shows "\<exists>r wd'. Close wd = Done (r, wd') \<and> follows wd wd' \<and> dw_done wd' \<and> dw_c wd'"
proof -
  from Close_returns [OF assms] obtain wd1 ds where
    a: "follows wd wd1" "dw_c wd1" "dw_done wd1"
      "dw_done wd \<longrightarrow> wd1 = wd\<lparr>dw_c := True\<rparr>"
      "Close wd = Done (case Closer (dw_w wd) of
                 None \<Rightarrow> (None, wd1)
               | Some cl \<Rightarrow> (cl (calls (dw_w wd1)),
                   wd1\<lparr>dw_w := (dw_w wd1)\<lparr>calls := calls (dw_w wd1) @ [SinkClose]\<rparr>\<rparr>))"
    by blast
  let ?wd2 = "wd1\<lparr>dw_w := (dw_w wd1)\<lparr>calls := calls (dw_w wd1) @ [SinkClose]\<rparr>\<rparr>"
  have "follows wd1 ?wd2"
    by (simp add: follows_def)
  from follows_trans [OF a(1) this] a show ?thesis
    by (cases "Closer (dw_w wd)") auto
qed

subsection \<open>Schedules\<close>

lemma pool_ok_evict:
  assumes "pool_ok pool"
  shows "pool_ok (take n pool @ drop (Suc n) pool)"
proof -
  have "set (take n pool @ drop (Suc n) pool) \<subseteq> set pool"
    using set_take_subset [of n pool] set_drop_subset [of "Suc n" pool] by auto
  then show ?thesis
    using assms unfolding pool_ok_def list_all_iff by blast
qed

lemma step_follows:
  assumes "armed wd"
  shows "\<exists>wd'. step e wd = Done wd' \<and> follows wd wd'"
proof (cases e)
  case (Produce p)
  have "step (Produce p) wd = Done (snd (Write p wd))" by simp
  with Produce Write_follows [of wd p] show ?thesis by blast
next
  case Pump
  show ?thesis
  proof (cases "dw_done wd")
    case True
    then have "step Pump wd = Done wd" by simp
    with Pump follows_refl [of wd] show ?thesis by blast
  next
    case False
    from poll_iter_total [OF assms] obtain x where x: "poll_iter wd = Inr x" by blast
    show ?thesis
    proof (cases x)
      case (Running wd1)
      with x have it: "poll_iter wd = Inr (Running wd1)" by simp
      then have "step Pump wd = Done wd1" using False by simp
      with Pump poll_iter_Running_follows [OF it False] show ?thesis by blast
    next
      case (Exited wd1)
      with x have it: "poll_iter wd = Inr (Exited wd1)" by simp
      then have "step Pump wd = Done wd1" using False by simp
      with Pump poll_iter_Exited_follows [OF it] show ?thesis by blast
    next
      case Waiting
      with x have "step Pump wd = Done wd" using False by simp
      with Pump follows_refl [of wd] show ?thesis by blast
    qed
  qed
next
  case CloseCall
  from Close_follows [OF assms] obtain r wd' where
    c: "Close wd = Done (r, wd')" "follows wd wd'" by blast
  then have "step CloseCall wd = Done wd'" by simp
  with CloseCall c(2) show ?thesis by blast
next
  case (PoolEvict n)
  let ?wd = "wd\<lparr>bufPool := take n (bufPool wd) @ drop (Suc n) (bufPool wd)\<rparr>"
  have "follows wd ?wd"
    unfolding follows_def using pool_ok_evict [of "bufPool wd" n] by simp
  moreover have "step (PoolEvict n) wd = Done ?wd" by simp
  ultimately show ?thesis using PoolEvict by blast
next
  case (PoolPutOther c)
  let ?wd = "if c \<le> maxSize then wd\<lparr>bufPool := bufPool_Put \<lparr>elems = [], cap = c\<rparr> (bufPool wd)\<rparr>
           else wd"
  have "follows wd ?wd"
    unfolding follows_def by (simp add: pool_ok_def bufPool_Put_def)
  moreover have "step (PoolPutOther c) wd = Done ?wd" by simp
  ultimately show ?thesis using PoolPutOther by blast
qed

text \<open>A schedule always runs to its end: no event blocks or panics.\<close>

lemma run_follows:
  assumes "armed wd"
  shows "\<exists>wd'. run sched wd = Done wd' \<and> follows wd wd'"
  using assms
proof (induction sched arbitrary: wd)
  case Nil
  then show ?case by (simp add: follows_refl)
next
  case (Cons e es)
  from step_follows [OF Cons.prems] obtain x where x: "step e wd = Done x" "follows wd x"
    by blast
  from Cons.IH [OF follows_armed [OF x(2) Cons.prems]] obtain wd' where
    "run es x = Done wd'" "follows x wd'" by blast
  with x follows_trans [OF x(2)] show ?case by auto
qed

lemma run_append:
  "run (xs @ ys) wd =
     (case run xs wd of Panics x \<Rightarrow> Panics x | Blocks \<Rightarrow> Blocks | Done wd' \<Rightarrow> run ys wd')"
  by (induction xs arbitrary: wd) (auto split: outcome.splits)

subsection \<open>NewWriter\<close>

lemma NewWriter_Inr:
  assumes "NewWriter w sz pollInterval f pr = Inr wd"
  shows "0 < sz \<and> wd = \<lparr>bufPool = bufPool pr, user = user pr, goroutines = goroutines pr + 1,
               growslice = growslice pr, drain_on_cancel = drain_on_cancel pr,
               dw_w = w,
               dw_d = \<lparr>strategy = (if 0 < pollInterval then Poller pollInterval else Waiter),
                       diode = \<lparr>slots = replicate (nat sz) None, write_cursor = 0, read_cursor = 0,
                         alerter = Some (case f of None \<Rightarrow> (\<lambda>missed u. u) | Some g \<Rightarrow> g)\<rparr>\<rparr>,
               dw_c = False, dw_done = False\<rparr>"
  using assms
  by (auto simp: NewWriter_def NewManyToOne_def NewPoller_def NewWaiter_def Let_def
           split: if_splits)

lemma NewWriter_armed:
  assumes "NewWriter w sz pollInterval f pr = Inr wd"
  shows "armed wd \<and> bufPool wd = bufPool pr \<and> user wd = user pr \<and> dw_w wd = w"
  using NewWriter_Inr [OF assms] by (simp add: armed_def)

section \<open>The claims\<close>

text \<open>
  C1. For every byte slice \<open>p\<close> and every \<^verbatim>\<open>Writer\<close> made by \<^verbatim>\<open>NewWriter\<close>,
  in whatever state a schedule of writes, pump iterations, closes and pool events has
  left it, \<^verbatim>\<open>Write(p)\<close> returns \<open>len(p)\<close> and a nil error. The sink, the
  capacity, the interval and the drop callback are arbitrary; the schedule always runs
  to its end. The program state at construction has a pool of empty slices, as every
  state of the package has.
\<close>

theorem Write_returns_len:
  assumes "pool_ok (bufPool pr)"
      and "NewWriter w sz pollInterval f pr = Inr wd0"
  shows "\<exists>wd. run sched wd0 = Done wd \<and> fst (Write p wd) = (int (length p), None)"
proof -
  from NewWriter_armed [OF assms(2)] have a: "armed wd0" "pool_ok (bufPool wd0)"
    using assms(1) by simp_all
  from run_follows [OF a(1)] obtain wd where r: "run sched wd0 = Done wd" "follows wd0 wd"
    by blast
  then have "pool_ok (bufPool wd)"
    using a(2) by (simp add: follows_def)
  with r(1) Write_len show ?thesis by blast
qed

theorem Write_returns_len_witness:
  "\<exists>wd0 wd. NewWriter ex_sink 2 0 (Some ex_alert) ex_env = Inr wd0
     \<and> run [Produce [1], Produce [2, 2], Produce [3], Pump, Pump] wd0 = Done wd
     \<and> user wd = [2] \<and> calls (dw_w wd) = [SinkWrite [3]]
     \<and> fst (Write [7, 8] wd) = (2, None)"
proof -
  have p: "pool_ok (bufPool ex_env)"
    by (simp add: pool_ok_def ex_env_def)
  obtain wd0 where n: "NewWriter ex_sink 2 0 (Some ex_alert) ex_env = Inr wd0"
    by (simp add: model_defs)
  from Write_returns_len [OF p n, of "[Produce [1], Produce [2, 2], Produce [3], Pump, Pump]" "[7, 8]"]
  obtain wd where r: "run [Produce [1], Produce [2, 2], Produce [3], Pump, Pump] wd0 = Done wd"
    "fst (Write [7, 8] wd) = (int (length [7, 8 :: byte]), None)"
    by blast
  have "user wd = [2] \<and> calls (dw_w wd) = [SinkWrite [3]]"
    using r(1) n by (auto simp: model_defs ex_defs)
  with n r show ?thesis by simp
qed

text \<open>
  C3. Constructing a \<^verbatim>\<open>Writer\<close> with a capacity \<open>\<le> 0\<close> fails with a configuration
  error, and the program state at the failure is the one before the call: no pump
  goroutine has been started, since \<^verbatim>\<open>go dw.poll()\<close> comes after the diode's
  construction. With a positive capacity construction succeeds, starts exactly one pump
  and gives the diode that many slots.
\<close>

theorem NewWriter_capacity:
  "(sz \<le> 0 \<longrightarrow> NewWriter w sz pollInterval f pr = Inl (ConfigurationError, pr))
   \<and> (0 < sz \<longrightarrow> (\<exists>wd. NewWriter w sz pollInterval f pr = Inr wd
          \<and> goroutines wd = goroutines pr + 1 \<and> \<not> dw_c wd \<and> \<not> dw_done wd
          \<and> length (slots (diode (dw_d wd))) = nat sz))"
  by (simp add: NewWriter_def NewManyToOne_def NewPoller_def NewWaiter_def Let_def)

theorem NewWriter_capacity_witness:
  "NewWriter ex_sink 0 5 (Some ex_alert) ex_env = Inl (ConfigurationError, ex_env)
   \<and> NewWriter ex_sink (- 3) 0 None ex_env = Inl (ConfigurationError, ex_env)
   \<and> goroutines ex_env = 0
   \<and> (\<exists>wd. NewWriter ex_sink 4 5 (Some ex_alert) ex_env = Inr wd \<and> goroutines wd = 1
         \<and> length (slots (diode (dw_d wd))) = 4)"
proof -
  have a: "NewWriter ex_sink 0 5 (Some ex_alert) ex_env = Inl (ConfigurationError, ex_env)"
    using NewWriter_capacity [of 0 ex_sink 5 "Some ex_alert" ex_env] by simp
  have b: "NewWriter ex_sink (- 3) 0 None ex_env = Inl (ConfigurationError, ex_env)"
    using NewWriter_capacity [of "- 3" ex_sink 0 None ex_env] by simp
  have c: "\<exists>wd. NewWriter ex_sink 4 5 (Some ex_alert) ex_env = Inr wd \<and> goroutines wd = 1
         \<and> length (slots (diode (dw_d wd))) = 4"
    using NewWriter_capacity [of 4 ex_sink 5 "Some ex_alert" ex_env]
    by (auto simp: ex_env_def)
  have d: "goroutines ex_env = 0" by (simp add: ex_env_def)
  from a b c d show ?thesis by blast
qed

text \<open>
  C7. Whenever \<^verbatim>\<open>NewWriter\<close> returns a \<^verbatim>\<open>Writer\<close>, its strategy is decided by the
  interval alone: a poller with that interval when the interval is strictly positive, a
  waiter when it is zero or negative.
\<close>

theorem NewWriter_strategy:
  assumes "NewWriter w sz pollInterval f pr = Inr wd"
  shows "strategy (dw_d wd) = (if 0 < pollInterval then Poller pollInterval else Waiter)"
  using NewWriter_Inr [OF assms] by simp

theorem NewWriter_strategy_witness:
  "(\<exists>wd. NewWriter ex_sink 4 250 None ex_env = Inr wd \<and> strategy (dw_d wd) = Poller 250)
   \<and> (\<exists>wd. NewWriter ex_sink 4 0 None ex_env = Inr wd \<and> strategy (dw_d wd) = Waiter)
   \<and> (\<exists>wd. NewWriter ex_sink 4 (- 1) None ex_env = Inr wd \<and> strategy (dw_d wd) = Waiter)"
proof -
  obtain a where a: "NewWriter ex_sink 4 250 None ex_env = Inr a"
    by (simp add: NewWriter_def NewManyToOne_def)
  obtain b where b: "NewWriter ex_sink 4 0 None ex_env = Inr b"
    by (simp add: NewWriter_def NewManyToOne_def)
  obtain c where c: "NewWriter ex_sink 4 (- 1) None ex_env = Inr c"
    by (simp add: NewWriter_def NewManyToOne_def)
  have "strategy (dw_d a) = Poller 250" using NewWriter_strategy [OF a] by simp
  moreover have "strategy (dw_d b) = Waiter" using NewWriter_strategy [OF b] by simp
  moreover have "strategy (dw_d c) = Waiter" using NewWriter_strategy [OF c] by simp
  ultimately show ?thesis using a b c by blast
qed

text \<open>
  C8. When the pump has taken a record \<open>p\<close> from the diode, it writes it to the sink
  and then puts \<open>p[:0]\<close> back into the pool if and only if \<open>cap(p) \<le> 2^16\<close>; a
  buffer with a larger capacity leaves the pool as it was.
\<close>

theorem poll_recycles_within_maxSize:
  assumes "Next (drain_on_cancel wd) (dw_c wd) (dw_d wd) (user wd) = Inr (Item p, df, u)"
  shows "\<exists>wd'. poll_iter wd = Inr (Running wd')
           \<and> calls (dw_w wd') = calls (dw_w wd) @ [SinkWrite (elems p)]
           \<and> bufPool wd' = (if cap p \<le> 2 ^ 16 then reslice0 p # bufPool wd else bufPool wd)
           \<and> ((bufPool wd' = reslice0 p # bufPool wd) = (cap p \<le> 2 ^ 16))"
  using poll_iter_Item [OF assms] by (simp add: maxSize_def)

theorem poll_recycles_within_maxSize_witness:
  "(\<exists>wd'. poll_iter (ex_world 65536) = Inr (Running wd')
       \<and> calls (dw_w wd') = [SinkWrite [1, 2]]
       \<and> bufPool wd' = [\<lparr>elems = [], cap = 65536\<rparr>])
   \<and> (\<exists>wd'. poll_iter (ex_world 65537) = Inr (Running wd')
       \<and> calls (dw_w wd') = [SinkWrite [1, 2]]
       \<and> bufPool wd' = [])"
proof -
  have a: "Next (drain_on_cancel (ex_world 65536)) (dw_c (ex_world 65536)) (dw_d (ex_world 65536))
      (user (ex_world 65536))
    = Inr (Item \<lparr>elems = [1, 2], cap = 65536\<rparr>,
           (dw_d (ex_world 65536))\<lparr>diode := (diode (dw_d (ex_world 65536)))\<lparr>read_cursor := 1\<rparr>\<rparr>, [])"
    by (simp add: ex_world_def Next_def next_item_def slot_at_def Let_def)
  have b: "Next (drain_on_cancel (ex_world 65537)) (dw_c (ex_world 65537)) (dw_d (ex_world 65537))
      (user (ex_world 65537))
    = Inr (Item \<lparr>elems = [1, 2], cap = 65537\<rparr>,
           (dw_d (ex_world 65537))\<lparr>diode := (diode (dw_d (ex_world 65537)))\<lparr>read_cursor := 1\<rparr>\<rparr>, [])"
    by (simp add: ex_world_def Next_def next_item_def slot_at_def Let_def)
  have c: "\<exists>wd'. poll_iter (ex_world 65536) = Inr (Running wd')
       \<and> calls (dw_w wd') = [SinkWrite [1, 2]]
       \<and> bufPool wd' = [\<lparr>elems = [], cap = 65536\<rparr>]"
    using poll_recycles_within_maxSize [OF a]
    by (auto simp: ex_world_def ex_sink_def reslice0_def)
  have d: "\<exists>wd'. poll_iter (ex_world 65537) = Inr (Running wd')
       \<and> calls (dw_w wd') = [SinkWrite [1, 2]]
       \<and> bufPool wd' = []"
    using poll_recycles_within_maxSize [OF b]
    by (auto simp: ex_world_def ex_sink_def reslice0_def)
  from c d show ?thesis by blast
qed

end
